theory Spec2Isabelle
  imports Main
begin

section \<open>The G2D buffer map: memory model\<close>

text \<open>
  The file \<^verbatim>\<open>lv_g2d_buf_map.c\<close> keeps one process-wide hash table from buffer
  addresses (the keys) to \<^verbatim>\<open>struct g2d_buf *\<close> handles (the values). The table,
  its items and its overflow chains live in dynamically allocated memory and the code
  frees them by hand, so the model keeps an explicit store: typed heaps from addresses to
  objects, an allocator, and a trace of the release calls made on keys and handles.

  Addresses are natural numbers and \<open>0\<close> is \<^verbatim>\<open>NULL\<close>.
\<close>

type_synonym addr = nat

text \<open>
  Modelled from the spec: the header \<^verbatim>\<open>lv_g2d_buf_map.h\<close>, which declares the three
  structs, is not among the sources. Their fields are the ones the functions access and
  section 3 of the specification lists.

  \<^verbatim>\<open>lv_map_item_t\<close>, an Entry: the fields \<^verbatim>\<open>key\<close> and \<^verbatim>\<open>value\<close>.
\<close>

record lv_map_item_t =
  item_key :: addr
  item_value :: addr

text \<open>
  Modelled from the spec: \<^verbatim>\<open>lv_list_t\<close> of the same header, a chain node: the
  fields \<^verbatim>\<open>item\<close> and \<^verbatim>\<open>next\<close>.
\<close>

record lv_list_t =
  node_item :: addr
  node_next :: addr

text \<open>
  Modelled from the spec: \<^verbatim>\<open>lv_buf_map_t\<close> of the same header, the table: the
  arrays \<^verbatim>\<open>items\<close> and \<^verbatim>\<open>overflow_list\<close>, and the integers \<^verbatim>\<open>size\<close> and
  \<^verbatim>\<open>count\<close>.
\<close>

record lv_buf_map_t =
  items :: "addr list"
  overflow_list :: "addr list"
  table_size :: int
  table_count :: int

text \<open>
  What the table does to the outside world: \<^verbatim>\<open>lv_free\<close> on a key,
  \<^verbatim>\<open>g2d_free\<close> on a value, and the message of a failed \<^verbatim>\<open>G2D_ASSERT_MSG\<close>.
  The calls are recorded in the order in which they are made.
\<close>

datatype event = Lv_free_key addr | G2d_free addr | Assert_msg string

text \<open>
  Undefined behaviour of the C program is a value: the static pointer \<^verbatim>\<open>table\<close>
  is not set, an address that is dereferenced holds no live object of the expected type
  (it is \<^verbatim>\<open>NULL\<close>, dangling or arbitrary), or an index leaves its array.
\<close>

datatype fault = No_table | Invalid_deref addr | Out_of_bounds nat

text \<open>
  Modelled from the spec: the allocator (\<^verbatim>\<open>lv_malloc\<close>, \<^verbatim>\<open>lv_malloc_zeroed\<close>,
  \<^verbatim>\<open>lv_free\<close>) and the resource provider (\<^verbatim>\<open>g2d_free\<close>) are outside the
  sources; section 6 of the specification gives their contracts.

  The state of the program. \<open>table\<close> is the static variable of that name; it is
  \<open>None\<close> before \<^verbatim>\<open>lv_create_buf_map\<close> and after \<^verbatim>\<open>lv_free_buf_map\<close>.
  \<open>item_mem\<close> and \<open>node_mem\<close> hold the live items and list nodes; freeing
  one removes it, and an access to an address that holds none is a fault.
  \<open>brk\<close> is the last address handed out by \<^verbatim>\<open>lv_malloc\<close>, which never
  hands out \<^verbatim>\<open>NULL\<close> or an address twice. \<^verbatim>\<open>lv_malloc\<close> does not initialise
  the block it returns: \<open>junk a\<close> is what a list node allocated at \<open>a\<close>
  holds before the program writes to it.
\<close>

record world =
  table :: "lv_buf_map_t option"
  item_mem :: "addr \<Rightarrow> lv_map_item_t option"
  node_mem :: "addr \<Rightarrow> lv_list_t option"
  brk :: addr
  junk :: "addr \<Rightarrow> lv_list_t"
  trace :: "event list"

section \<open>The functions of the file\<close>

definition HASH_TABLE_SIZE :: nat where
  "HASH_TABLE_SIZE = 50"

text \<open>
  \<^verbatim>\<open>_map_hash_function\<close> prints the pointer with \<^verbatim>\<open>sprintf(str, "%p", ptr)\<close>,
  adds the character codes up to the terminating zero and reduces the sum modulo
  \<^verbatim>\<open>HASH_TABLE_SIZE\<close>. The text that \<^verbatim>\<open>%p\<close> produces is left to the C library,
  so it is the parameter \<open>fmt\<close> of the model. (It is a short ASCII text: it fits
  the 64 bytes of \<^verbatim>\<open>str\<close>, its character codes are not negative, and their sum
  does not wrap.)
\<close>

definition map_hash_function :: "(addr \<Rightarrow> string) \<Rightarrow> addr \<Rightarrow> nat" where
  "map_hash_function fmt ptr =
     sum_list (map of_char (takeWhile (\<lambda>c. c \<noteq> CHR 0x00) (fmt ptr))) mod HASH_TABLE_SIZE"

text \<open>\<^verbatim>\<open>_map_create_item\<close>: a fresh item holding the key and the value.\<close>

definition map_create_item :: "addr \<Rightarrow> addr \<Rightarrow> world \<Rightarrow> addr \<times> world" where
  "map_create_item k v w =
     (let item = Suc (brk w)
      in (item, w\<lparr>brk := item,
                   item_mem := (item_mem w)(item \<mapsto> \<lparr>item_key = k, item_value = v\<rparr>)\<rparr>))"

text \<open>
  \<^verbatim>\<open>_map_free_item\<close>: releases the key and the value of the item, then the item.
  (The fields it sets to \<^verbatim>\<open>NULL\<close> before are gone with the item.)
\<close>

definition map_free_item :: "addr \<Rightarrow> world \<Rightarrow> fault + world" where
  "map_free_item item w =
     (case item_mem w item of
        None \<Rightarrow> Inl (Invalid_deref item)
      | Some it \<Rightarrow>
          Inr (w\<lparr>trace := trace w @ [Lv_free_key (item_key it), G2d_free (item_value it)],
                 item_mem := (item_mem w)(item := None)\<rparr>))"

text \<open>\<^verbatim>\<open>_list_alloc\<close>: a fresh list node, not initialised.\<close>

definition list_alloc :: "world \<Rightarrow> addr \<times> world" where
  "list_alloc w =
     (let list = Suc (brk w)
      in (list, w\<lparr>brk := list, node_mem := (node_mem w)(list \<mapsto> junk w list)\<rparr>))"

text \<open>
  The loop \<^verbatim>\<open>while(temp->next->next) temp = temp->next;\<close> of \<^verbatim>\<open>_list_insert\<close>.
  It only reads the nodes; it runs forever on a chain that is a cycle.
\<close>

partial_function (option) list_insert_walk ::
  "(addr \<Rightarrow> lv_list_t option) \<Rightarrow> addr \<Rightarrow> (fault + addr) option" where
  "list_insert_walk nm temp =
     (case nm temp of
        None \<Rightarrow> Some (Inl (Invalid_deref temp))
      | Some t \<Rightarrow>
          (case nm (node_next t) of
             None \<Rightarrow> Some (Inl (Invalid_deref (node_next t)))
           | Some tn \<Rightarrow>
               if node_next tn \<noteq> 0 then list_insert_walk nm (node_next t)
               else Some (Inr temp)))"

text \<open>
  \<^verbatim>\<open>_list_insert\<close>: a new node for the item, with \<^verbatim>\<open>next = NULL\<close>. It becomes the
  list when the list is empty, the successor of a one-node list, and otherwise the
  successor of the node that the loop stops at. It returns the head of the list.
\<close>

definition list_insert :: "addr \<Rightarrow> addr \<Rightarrow> world \<Rightarrow> (fault + addr \<times> world) option" where
  "list_insert list item w =
     (if list = 0 then
        (let (head, w1) = list_alloc w
         in Some (Inr (head, w1\<lparr>node_mem := (node_mem w1)
                          (head \<mapsto> \<lparr>node_item = item, node_next = 0\<rparr>)\<rparr>)))
      else
        (case node_mem w list of
           None \<Rightarrow> Some (Inl (Invalid_deref list))
         | Some l \<Rightarrow>
             if node_next l = 0 then
               (let (node, w1) = list_alloc w;
                    w2 = w1\<lparr>node_mem := (node_mem w1)
                           (node \<mapsto> \<lparr>node_item = item, node_next = 0\<rparr>)\<rparr>
                in Some (Inr (list, w2\<lparr>node_mem := (node_mem w2)
                                 (list \<mapsto> l\<lparr>node_next := node\<rparr>)\<rparr>)))
             else
               (case list_insert_walk (node_mem w) list of
                  None \<Rightarrow> None
                | Some (Inl e) \<Rightarrow> Some (Inl e)
                | Some (Inr temp) \<Rightarrow>
                    (let (node, w1) = list_alloc w;
                         w2 = w1\<lparr>node_mem := (node_mem w1)
                                (node \<mapsto> \<lparr>node_item = item, node_next = 0\<rparr>)\<rparr>
                     in case node_mem w2 temp of
                          None \<Rightarrow> Some (Inl (Invalid_deref temp))
                        | Some t \<Rightarrow>
                            Some (Inr (list, w2\<lparr>node_mem := (node_mem w2)
                                        (temp \<mapsto> t\<lparr>node_next := node\<rparr>)\<rparr>))))))"

text \<open>
  \<^verbatim>\<open>_list_free\<close>: for every node of the list, releases the key and the value of its
  item, the item and the node.
\<close>

partial_function (option) list_free :: "addr \<Rightarrow> world \<Rightarrow> (fault + world) option" where
  "list_free list w =
     (if list = 0 then Some (Inr w)
      else
        (case node_mem w list of
           None \<Rightarrow> Some (Inl (Invalid_deref list))
         | Some temp \<Rightarrow>
             (case item_mem w (node_item temp) of
                None \<Rightarrow> Some (Inl (Invalid_deref (node_item temp)))
              | Some it \<Rightarrow>
                  list_free (node_next temp)
                    (w\<lparr>trace := trace w @ [Lv_free_key (item_key it), G2d_free (item_value it)],
                       item_mem := (item_mem w)(node_item temp := None),
                       node_mem := (node_mem w)(list := None)\<rparr>))))"

text \<open>An assignment through the static pointer \<^verbatim>\<open>table\<close>.\<close>

definition upd_table :: "(lv_buf_map_t \<Rightarrow> lv_buf_map_t) \<Rightarrow> world \<Rightarrow> world" where
  "upd_table f w = w\<lparr>table := map_option f (table w)\<rparr>"

text \<open>The assignments \<^verbatim>\<open>p->item = v\<close> and \<^verbatim>\<open>p->next = v\<close> to a list node.\<close>

definition set_node_item :: "addr \<Rightarrow> addr \<Rightarrow> world \<Rightarrow> fault + world" where
  "set_node_item p v w =
     (case node_mem w p of
        None \<Rightarrow> Inl (Invalid_deref p)
      | Some n \<Rightarrow> Inr (w\<lparr>node_mem := (node_mem w)(p \<mapsto> n\<lparr>node_item := v\<rparr>)\<rparr>))"

definition set_node_next :: "addr \<Rightarrow> addr \<Rightarrow> world \<Rightarrow> fault + world" where
  "set_node_next p v w =
     (case node_mem w p of
        None \<Rightarrow> Inl (Invalid_deref p)
      | Some n \<Rightarrow> Inr (w\<lparr>node_mem := (node_mem w)(p \<mapsto> n\<lparr>node_next := v\<rparr>)\<rparr>))"

text \<open>
  \<^verbatim>\<open>_handle_collision\<close>: with no chain at the index, a fresh node becomes the chain;
  only its \<^verbatim>\<open>item\<close> field is written. Otherwise the item goes through
  \<^verbatim>\<open>_list_insert\<close>.
\<close>

definition handle_collision :: "nat \<Rightarrow> addr \<Rightarrow> world \<Rightarrow> (fault + world) option" where
  "handle_collision index item w =
     (case table w of
        None \<Rightarrow> Some (Inl No_table)
      | Some t \<Rightarrow>
          if length (overflow_list t) \<le> index then Some (Inl (Out_of_bounds index))
          else if overflow_list t ! index = 0 then
            (let (head, w1) = list_alloc w
             in case set_node_item head item w1 of
                  Inl e \<Rightarrow> Some (Inl e)
                | Inr w2 \<Rightarrow>
                    Some (Inr (upd_table
                      (\<lambda>t. t\<lparr>overflow_list := (overflow_list t)[index := head]\<rparr>) w2)))
          else
            (case list_insert (overflow_list t ! index) item w of
               None \<Rightarrow> None
             | Some (Inl e) \<Rightarrow> Some (Inl e)
             | Some (Inr (list, w1)) \<Rightarrow>
                 Some (Inr (upd_table
                   (\<lambda>t. t\<lparr>overflow_list := (overflow_list t)[index := list]\<rparr>) w1))))"

text \<open>
  Modelled from the spec: the macro \<^verbatim>\<open>G2D_ASSERT_MSG\<close> is declared in
  \<^verbatim>\<open>lv_g2d_utils.h\<close>, which is not among the sources. By section 7 of the
  specification the failed assertion \<^verbatim>\<open>G2D_ASSERT_MSG(false, msg)\<close> logs its
  message and the function returns without inserting.
\<close>

definition g2d_assert_msg :: "string \<Rightarrow> world \<Rightarrow> world" where
  "g2d_assert_msg msg w = w\<lparr>trace := trace w @ [Assert_msg msg]\<rparr>"

text \<open>
  \<^verbatim>\<open>lv_create_buf_map\<close>: the table, with both arrays of \<^verbatim>\<open>HASH_TABLE_SIZE\<close>
  null pointers (allocated zeroed, then set to \<^verbatim>\<open>NULL\<close> again) and no entries.
  The three blocks take three addresses from the allocator.
\<close>

definition lv_create_buf_map :: "world \<Rightarrow> world" where
  "lv_create_buf_map w =
     w\<lparr>brk := brk w + 3,
       table := Some \<lparr>items = replicate HASH_TABLE_SIZE 0,
                      overflow_list = replicate HASH_TABLE_SIZE 0,
                      table_size = int HASH_TABLE_SIZE,
                      table_count = 0\<rparr>\<rparr>"

text \<open>The message of the assertion in \<^verbatim>\<open>lv_insert_buf_map\<close>.\<close>

definition full_msg :: string where
  "full_msg = ''Insert Error: Hash Table is full'' @ [CHR 0x0A]"

text \<open>
  \<^verbatim>\<open>lv_insert_buf_map\<close>. The new item is created first, whatever happens to it
  afterwards: it is freed when the table is full, stays allocated and unused when the key
  is already in the primary slot, goes to the chain on a collision and into the primary
  slot otherwise.
\<close>

definition lv_insert_buf_map ::
  "(addr \<Rightarrow> string) \<Rightarrow> addr \<Rightarrow> addr \<Rightarrow> world \<Rightarrow> (fault + world) option" where
  "lv_insert_buf_map fmt k v w =
     (let (item, w1) = map_create_item k v w;
          index = map_hash_function fmt k
      in case table w1 of
           None \<Rightarrow> Some (Inl No_table)
         | Some t \<Rightarrow>
             if length (items t) \<le> index then Some (Inl (Out_of_bounds index))
             else if items t ! index = 0 then
               (if table_count t = table_size t then
                  (case map_free_item item w1 of
                     Inl e \<Rightarrow> Some (Inl e)
                   | Inr w2 \<Rightarrow>
                       Some (Inr (g2d_assert_msg full_msg w2)))
                else
                  Some (Inr (upd_table
                    (\<lambda>t. t\<lparr>items := (items t)[index := item],
                            table_count := table_count t + 1\<rparr>) w1)))
             else
               (case item_mem w1 (items t ! index) of
                  None \<Rightarrow> Some (Inl (Invalid_deref (items t ! index)))
                | Some cur \<Rightarrow>
                    if item_key cur = k then
                      Some (Inr (w1\<lparr>item_mem := (item_mem w1)
                                    (items t ! index \<mapsto> cur\<lparr>item_value := v\<rparr>)\<rparr>))
                    else handle_collision index item w1))"

text \<open>
  \<^verbatim>\<open>lv_search_buf_map\<close>. After the primary item it reads the first node of the
  chain into its local variables and returns \<^verbatim>\<open>NULL\<close>.
\<close>

definition lv_search_buf_map :: "(addr \<Rightarrow> string) \<Rightarrow> addr \<Rightarrow> world \<Rightarrow> fault + addr" where
  "lv_search_buf_map fmt k w =
     (let index = map_hash_function fmt k
      in case table w of
           None \<Rightarrow> Inl No_table
         | Some t \<Rightarrow>
             if length (items t) \<le> index \<or> length (overflow_list t) \<le> index
             then Inl (Out_of_bounds index)
             else if items t ! index \<noteq> 0 then
               (case item_mem w (items t ! index) of
                  None \<Rightarrow> Inl (Invalid_deref (items t ! index))
                | Some item \<Rightarrow>
                    if item_key item = k then Inr (item_value item)
                    else if overflow_list t ! index = 0 then Inr 0
                    else
                      (case node_mem w (overflow_list t ! index) of
                         None \<Rightarrow> Inl (Invalid_deref (overflow_list t ! index))
                       | Some head \<Rightarrow> Inr 0))
             else Inr 0)"

text \<open>
  The loop of \<^verbatim>\<open>lv_free_item\<close> over the chain. At a match with \<^verbatim>\<open>prev == NULL\<close>
  it frees the list from \<^verbatim>\<open>head\<close> on and clears the chain; at a match with another
  \<^verbatim>\<open>prev\<close> it relinks, cuts the node off and frees it. It advances with
  \<^verbatim>\<open>curr = curr->next; prev = curr;\<close>, in this order.
\<close>

partial_function (option) free_item_chain ::
  "nat \<Rightarrow> addr \<Rightarrow> addr \<Rightarrow> addr \<Rightarrow> addr \<Rightarrow> world \<Rightarrow> (fault + world) option" where
  "free_item_chain index k head crr prev w =
     (if crr = 0 then Some (Inr w)
      else
        (case node_mem w crr of
           None \<Rightarrow> Some (Inl (Invalid_deref crr))
         | Some c \<Rightarrow>
             (case item_mem w (node_item c) of
                None \<Rightarrow> Some (Inl (Invalid_deref (node_item c)))
              | Some ci \<Rightarrow>
                  if item_key ci = k then
                    (if prev = 0 then
                       (case list_free head w of
                          None \<Rightarrow> None
                        | Some (Inl e) \<Rightarrow> Some (Inl e)
                        | Some (Inr w1) \<Rightarrow>
                            Some (Inr (upd_table
                              (\<lambda>t. t\<lparr>overflow_list := (overflow_list t)[index := 0]\<rparr>) w1)))
                     else
                       (case set_node_next prev (node_next c) w of
                          Inl e \<Rightarrow> Some (Inl e)
                        | Inr w1 \<Rightarrow>
                            (case set_node_next crr 0 w1 of
                               Inl e \<Rightarrow> Some (Inl e)
                             | Inr w2 \<Rightarrow>
                                 (case list_free crr w2 of
                                    None \<Rightarrow> None
                                  | Some (Inl e) \<Rightarrow> Some (Inl e)
                                  | Some (Inr w3) \<Rightarrow>
                                      Some (Inr (upd_table
                                        (\<lambda>t. t\<lparr>overflow_list :=
                                                 (overflow_list t)[index := head]\<rparr>) w3))))))
                  else free_item_chain index k head (node_next c) (node_next c) w)))"

text \<open>
  The branch of \<^verbatim>\<open>lv_free_item\<close> for a matching primary item with a chain: the
  item is freed, a new item is created from the key and the value of the head node's
  item and stored in the slot, the head node goes through \<^verbatim>\<open>_list_free\<close>, and the
  chain becomes what was the head's \<^verbatim>\<open>next\<close>.
\<close>

definition free_item_promote :: "nat \<Rightarrow> addr \<Rightarrow> addr \<Rightarrow> world \<Rightarrow> (fault + world) option" where
  "free_item_promote index item head w =
     (case map_free_item item w of
        Inl e \<Rightarrow> Some (Inl e)
      | Inr w1 \<Rightarrow>
          (case node_mem w1 head of
             None \<Rightarrow> Some (Inl (Invalid_deref head))
           | Some node \<Rightarrow>
               (case set_node_next head 0 w1 of
                  Inl e \<Rightarrow> Some (Inl e)
                | Inr w2 \<Rightarrow>
                    (case item_mem w2 (node_item node) of
                       None \<Rightarrow> Some (Inl (Invalid_deref (node_item node)))
                     | Some ni \<Rightarrow>
                         (let (new, w3) = map_create_item (item_key ni) (item_value ni) w2;
                              w4 = upd_table (\<lambda>t. t\<lparr>items := (items t)[index := new]\<rparr>) w3
                          in case list_free head w4 of
                               None \<Rightarrow> None
                             | Some (Inl e) \<Rightarrow> Some (Inl e)
                             | Some (Inr w5) \<Rightarrow>
                                 Some (Inr (upd_table
                                   (\<lambda>t. t\<lparr>overflow_list :=
                                            (overflow_list t)[index := node_next node]\<rparr>)
                                   w5)))))))"

text \<open>
  \<^verbatim>\<open>lv_free_item\<close>. With an item in the slot, the item is dereferenced on every
  path: in the second condition when there is no chain, in the third branch otherwise.
\<close>

definition lv_free_item :: "(addr \<Rightarrow> string) \<Rightarrow> addr \<Rightarrow> world \<Rightarrow> (fault + world) option" where
  "lv_free_item fmt k w =
     (let index = map_hash_function fmt k
      in case table w of
           None \<Rightarrow> Some (Inl No_table)
         | Some t \<Rightarrow>
             if length (items t) \<le> index \<or> length (overflow_list t) \<le> index
             then Some (Inl (Out_of_bounds index))
             else
               (let item = items t ! index; head = overflow_list t ! index
                in if item = 0 then Some (Inr w)
                   else
                     (case item_mem w item of
                        None \<Rightarrow> Some (Inl (Invalid_deref item))
                      | Some it \<Rightarrow>
                          if head = 0 \<and> item_key it = k then
                            (case map_free_item item
                                    (upd_table (\<lambda>t. t\<lparr>items := (items t)[index := 0]\<rparr>) w) of
                               Inl e \<Rightarrow> Some (Inl e)
                             | Inr w1 \<Rightarrow>
                                 Some (Inr (upd_table
                                   (\<lambda>t. t\<lparr>table_count := table_count t - 1\<rparr>) w1)))
                          else if head \<noteq> 0 then
                            (if item_key it = k then free_item_promote index item head w
                             else free_item_chain index k head head 0 w)
                          else Some (Inr w))))"

text \<open>The first loop of \<^verbatim>\<open>lv_free_buf_map\<close>, over the indices of the slots.\<close>

fun free_items :: "nat list \<Rightarrow> world \<Rightarrow> fault + world" where
  "free_items [] w = Inr w"
| "free_items (i # ns) w =
     (case table w of
        None \<Rightarrow> Inl No_table
      | Some t \<Rightarrow>
          if length (items t) \<le> i then Inl (Out_of_bounds i)
          else if items t ! i \<noteq> 0 then
            (case map_free_item (items t ! i) w of
               Inl e \<Rightarrow> Inl e
             | Inr w1 \<Rightarrow> free_items ns w1)
          else free_items ns w)"

text \<open>The loop of \<^verbatim>\<open>_free_overflow_list\<close>, over the indices of the chains.\<close>

fun free_lists :: "nat list \<Rightarrow> world \<Rightarrow> (fault + world) option" where
  "free_lists [] w = Some (Inr w)"
| "free_lists (i # ns) w =
     (case table w of
        None \<Rightarrow> Some (Inl No_table)
      | Some t \<Rightarrow>
          if length (overflow_list t) \<le> i then Some (Inl (Out_of_bounds i))
          else
            (case list_free (overflow_list t ! i) w of
               None \<Rightarrow> None
             | Some (Inl e) \<Rightarrow> Some (Inl e)
             | Some (Inr w1) \<Rightarrow> free_lists ns w1))"

text \<open>
  \<^verbatim>\<open>lv_free_buf_map\<close>: frees the items of the occupied slots, then every chain,
  then the arrays and the table.
\<close>

definition lv_free_buf_map :: "world \<Rightarrow> (fault + world) option" where
  "lv_free_buf_map w =
     (case table w of
        None \<Rightarrow> Some (Inl No_table)
      | Some t \<Rightarrow>
          (case free_items [0..<nat (table_size t)] w of
             Inl e \<Rightarrow> Some (Inl e)
           | Inr w1 \<Rightarrow>
               (case free_lists [0..<nat (table_size t)] w1 of
                  None \<Rightarrow> None
                | Some (Inl e) \<Rightarrow> Some (Inl e)
                | Some (Inr w2) \<Rightarrow> Some (Inr (w2\<lparr>table := None\<rparr>)))))"

section \<open>A concrete run-time environment\<close>

text \<open>
  For running the functions: the text glibc prints for \<^verbatim>\<open>%p\<close> (\<^verbatim>\<open>(nil)\<close> for the
  null pointer, otherwise \<^verbatim>\<open>0x\<close> and the lower-case hexadecimal digits), and a
  state before \<^verbatim>\<open>lv_create_buf_map\<close> in which every fresh block happens to be
  zeroed.
\<close>

fun hex_digits :: "nat \<Rightarrow> string" where
  "hex_digits n =
     (if n < 16 then [''0123456789abcdef'' ! n]
      else hex_digits (n div 16) @ [''0123456789abcdef'' ! (n mod 16)])"

definition glibc_p :: "addr \<Rightarrow> string" where
  "glibc_p p = (if p = 0 then ''(nil)'' else ''0x'' @ hex_digits p)"

definition boot :: world where
  "boot = \<lparr>table = None, item_mem = (\<lambda>a. None), node_mem = (\<lambda>a. None), brk = 0,
           junk = (\<lambda>a. \<lparr>node_item = 0, node_next = 0\<rparr>), trace = []\<rparr>"

section \<open>Runs of the interface\<close>

text \<open>
  A caller's sequence of calls to \<^verbatim>\<open>lv_insert_buf_map\<close>, \<^verbatim>\<open>lv_free_item\<close>
  and \<^verbatim>\<open>lv_free_buf_map\<close>. A run stops at the first fault and does not return
  when one of its calls does not.
\<close>

datatype call = Insert addr addr | Remove addr | Destroy

fun calls :: "(addr \<Rightarrow> string) \<Rightarrow> call list \<Rightarrow> world \<Rightarrow> (fault + world) option" where
  "calls fmt [] w = Some (Inr w)"
| "calls fmt (c # cs) w =
     (case (case c of Insert k v \<Rightarrow> lv_insert_buf_map fmt k v w
                    | Remove k \<Rightarrow> lv_free_item fmt k w
                    | Destroy \<Rightarrow> lv_free_buf_map w) of
        None \<Rightarrow> None
      | Some (Inl e) \<Rightarrow> Some (Inl e)
      | Some (Inr w') \<Rightarrow> calls fmt cs w')"

text \<open>What a function of the final state yields after a run.\<close>

definition seen :: "(world \<Rightarrow> 'a) \<Rightarrow> (fault + world) option \<Rightarrow> (fault + 'a) option" where
  "seen f r = map_option (map_sum id f) r"

text \<open>The final state of a run that returns; the initial state otherwise.\<close>

definition world_after :: "(addr \<Rightarrow> string) \<Rightarrow> call list \<Rightarrow> world \<Rightarrow> world" where
  "world_after fmt cs w = (case calls fmt cs w of Some (Inr w') \<Rightarrow> w' | _ \<Rightarrow> w)"

text \<open>
  The states a caller can bring about: \<^verbatim>\<open>lv_create_buf_map\<close>, then any number of
  insertions and removals that return. (\<^verbatim>\<open>lv_search_buf_map\<close> does not change the
  state.)
\<close>

inductive reachable :: "(addr \<Rightarrow> string) \<Rightarrow> world \<Rightarrow> bool" for fmt where
  created: "reachable fmt (lv_create_buf_map w)"
| inserted: "reachable fmt w \<Longrightarrow> lv_insert_buf_map fmt k v w = Some (Inr w') \<Longrightarrow> reachable fmt w'"
| removed: "reachable fmt w \<Longrightarrow> lv_free_item fmt k w = Some (Inr w') \<Longrightarrow> reachable fmt w'"

text \<open>
  The invariant of the table: both arrays have \<^verbatim>\<open>HASH_TABLE_SIZE\<close> cells,
  \<^verbatim>\<open>size\<close> is \<^verbatim>\<open>HASH_TABLE_SIZE\<close>, \<^verbatim>\<open>count\<close> is the number of occupied
  primary slots, and an empty primary slot has an empty chain.
\<close>

definition table_inv :: "lv_buf_map_t \<Rightarrow> bool" where
  "table_inv t \<longleftrightarrow>
     length (items t) = HASH_TABLE_SIZE \<and>
     length (overflow_list t) = HASH_TABLE_SIZE \<and>
     table_size t = int HASH_TABLE_SIZE \<and>
     table_count t = int (length (filter (\<lambda>p. p \<noteq> 0) (items t))) \<and>
     (\<forall>i<HASH_TABLE_SIZE. items t ! i = 0 \<longrightarrow> overflow_list t ! i = 0)"

text \<open>The state after \<^verbatim>\<open>_map_create_item\<close>.\<close>

definition alloc_item :: "addr \<Rightarrow> addr \<Rightarrow> world \<Rightarrow> world" where
  "alloc_item k v w = snd (map_create_item k v w)"

text \<open>
  Two properties of an outcome, for the functions that iterate: the table is the one
  of the state \<open>w\<close>, or it differs from it in the chain head at one index only.
\<close>

definition keeps_table :: "world \<Rightarrow> fault + world \<Rightarrow> bool" where
  "keeps_table w r \<longleftrightarrow> (\<forall>w'. r = Inr w' \<longrightarrow> table w' = table w)"

definition chain_effect :: "nat \<Rightarrow> world \<Rightarrow> fault + world \<Rightarrow> bool" where
  "chain_effect index w r \<longleftrightarrow>
     (\<forall>w'. r = Inr w' \<longrightarrow>
        table w' = table w \<or>
        (\<exists>x. table w' =
           map_option (\<lambda>t. t\<lparr>overflow_list := (overflow_list t)[index := x]\<rparr>) (table w)))"

text \<open>
  Three states used below: the table after one insertion, after a second insertion that
  collides with the first, and a fresh table whose counter has been set to its capacity.
  The keys \<^verbatim>\<open>0x102\<close>, \<^verbatim>\<open>0x120\<close> and \<^verbatim>\<open>0x201\<close> (258, 288 and 513) are
  printed with the same characters in different orders, so they hash to the same index.
\<close>

definition one_entry :: world where
  "one_entry = world_after glibc_p [Insert 258 1001] (lv_create_buf_map boot)"

definition two_entries :: world where
  "two_entries = world_after glibc_p [Insert 288 1002] one_entry"

definition counter_at_capacity :: world where
  "counter_at_capacity =
     upd_table (\<lambda>t. t\<lparr>table_count := table_size t\<rparr>) (lv_create_buf_map boot)"

text \<open>The recursive functions are run through their unfolding equations.\<close>

declare list_free.simps[code] list_insert_walk.simps[code] free_item_chain.simps[code]

section \<open>What the functions do to the table\<close>

lemma map_hash_function_less: "map_hash_function fmt k < HASH_TABLE_SIZE"
  by (simp add: map_hash_function_def HASH_TABLE_SIZE_def)

lemma map_free_item_table: "map_free_item p w = Inr w' \<Longrightarrow> table w' = table w"
  by (auto simp: map_free_item_def split: option.splits)

lemma set_node_next_table: "set_node_next p v w = Inr w' \<Longrightarrow> table w' = table w"
  by (auto simp: set_node_next_def split: option.splits)

lemma set_node_item_table: "set_node_item p v w = Inr w' \<Longrightarrow> table w' = table w"
  by (auto simp: set_node_item_def split: option.splits)

lemma keeps_table_Inr: "keeps_table w (Inr w)"
  by (simp add: keeps_table_def)

lemma keeps_table_Inl: "keeps_table w (Inl e)"
  by (simp add: keeps_table_def)

lemma keeps_table_from: "keeps_table w1 r \<Longrightarrow> table w1 = table w \<Longrightarrow> keeps_table w r"
  unfolding keeps_table_def by metis

lemma list_free_table_aux: "list_free l w = Some r \<Longrightarrow> keeps_table w r"
proof (induct rule: list_free.raw_induct[rotated, consumes 1, case_names step])
  case (step f list w r)
  show ?case
  proof (cases "list = 0")
    case True
    with step(2) have "r = Inr w" by simp
    then show ?thesis by (simp add: keeps_table_Inr)
  next
    case False
    show ?thesis
    proof (cases "node_mem w list")
      case None
      with step(2) False have "r = Inl (Invalid_deref list)" by simp
      then show ?thesis by (simp add: keeps_table_Inl)
    next
      case (Some temp)
      note temp = this
      show ?thesis
      proof (cases "item_mem w (node_item temp)")
        case None
        with step(2) False temp have "r = Inl (Invalid_deref (node_item temp))" by simp
        then show ?thesis by (simp add: keeps_table_Inl)
      next
        case (Some it)
        with step(2) False temp
        have "f (node_next temp)
                (w\<lparr>trace := trace w @ [Lv_free_key (item_key it), G2d_free (item_value it)],
                   item_mem := (item_mem w)(node_item temp := None),
                   node_mem := (node_mem w)(list := None)\<rparr>) = Some r"
          by simp
        from step(1)[OF this] show ?thesis
          by (rule keeps_table_from) simp
      qed
    qed
  qed
qed

lemma list_free_table: "list_free l w = Some (Inr w') \<Longrightarrow> table w' = table w"
  using list_free_table_aux[of l w "Inr w'"] by (simp add: keeps_table_def)

lemma list_insert_table: "list_insert l item w = Some (Inr (l', w')) \<Longrightarrow> table w' = table w"
  by (auto simp: list_insert_def list_alloc_def Let_def split: if_splits option.splits sum.splits)

lemma chain_effectI1: "table w' = table w \<Longrightarrow> chain_effect index w (Inr w')"
  by (simp add: chain_effect_def)

lemma chain_effectI2:
  "table w1 = table w \<Longrightarrow>
   chain_effect index w
     (Inr (upd_table (\<lambda>t. t\<lparr>overflow_list := (overflow_list t)[index := x]\<rparr>) w1))"
  by (auto simp: chain_effect_def upd_table_def)

lemma chain_effect_Inl: "chain_effect index w (Inl e)"
  by (simp add: chain_effect_def)

lemma free_item_chain_table_aux:
  "free_item_chain index k head c p w = Some r \<Longrightarrow> chain_effect index w r"
proof (induct rule: free_item_chain.raw_induct[rotated, consumes 1, case_names step])
  case (step f index k head crr prev w r)
  show ?case
  proof (cases "crr = 0")
    case True
    with step(2) have "r = Inr w" by simp
    then show ?thesis by (simp add: chain_effectI1)
  next
    case False
    show ?thesis
    proof (cases "node_mem w crr")
      case None
      with step(2) False have "r = Inl (Invalid_deref crr)" by simp
      then show ?thesis by (simp add: chain_effect_Inl)
    next
      case (Some c)
      note c = this
      show ?thesis
      proof (cases "item_mem w (node_item c)")
        case None
        with step(2) False c have "r = Inl (Invalid_deref (node_item c))" by simp
        then show ?thesis by (simp add: chain_effect_Inl)
      next
        case (Some ci)
        note ci = this
        show ?thesis
        proof (cases "item_key ci = k")
          case False
          with step(2) \<open>crr \<noteq> 0\<close> c ci
          have "f index k head (node_next c) (node_next c) w = Some r" by simp
          then show ?thesis by (rule step(1))
        next
          case True
          note hit = this
          show ?thesis
          proof (cases "prev = 0")
            case True
            with step(2) \<open>crr \<noteq> 0\<close> c ci hit
            have r: "(case list_free head w of None \<Rightarrow> None | Some (Inl e) \<Rightarrow> Some (Inl e)
                 | Some (Inr w1) \<Rightarrow> Some (Inr (upd_table
                     (\<lambda>t. t\<lparr>overflow_list := (overflow_list t)[index := 0]\<rparr>) w1))) = Some r"
              by simp
            show ?thesis
            proof (cases "list_free head w")
              case None
              with r show ?thesis by simp
            next
              case (Some a)
              show ?thesis
              proof (cases a)
                case (Inl e)
                with r Some have "r = Inl e" by simp
                then show ?thesis by (simp add: chain_effect_Inl)
              next
                case (Inr w1)
                with Some have t1: "table w1 = table w" by (simp add: list_free_table)
                from r Some Inr have "r = Inr (upd_table
                     (\<lambda>t. t\<lparr>overflow_list := (overflow_list t)[index := 0]\<rparr>) w1)" by simp
                then show ?thesis using chain_effectI2[OF t1] by simp
              qed
            qed
          next
            case False
            from step(2) \<open>crr \<noteq> 0\<close> c ci hit False
            have r: "(case set_node_next prev (node_next c) w of Inl e \<Rightarrow> Some (Inl e)
                | Inr w1 \<Rightarrow>
                   (case set_node_next crr 0 w1 of Inl e \<Rightarrow> Some (Inl e)
                    | Inr w2 \<Rightarrow>
                       (case list_free crr w2 of None \<Rightarrow> None
                        | Some (Inl e) \<Rightarrow> Some (Inl e)
                        | Some (Inr w3) \<Rightarrow> Some (Inr (upd_table
                            (\<lambda>t. t\<lparr>overflow_list := (overflow_list t)[index := head]\<rparr>) w3))))) = Some r"
              by simp
            show ?thesis
            proof (cases "set_node_next prev (node_next c) w")
              case (Inl e)
              with r have "r = Inl e" by simp
              then show ?thesis by (simp add: chain_effect_Inl)
            next
              case (Inr w1)
              note w1 = this
              show ?thesis
              proof (cases "set_node_next crr 0 w1")
                case (Inl e)
                with r w1 have "r = Inl e" by simp
                then show ?thesis by (simp add: chain_effect_Inl)
              next
                case (Inr w2)
                note w2 = this
                have t2: "table w2 = table w"
                  using set_node_next_table[OF w1] set_node_next_table[OF w2] by simp
                show ?thesis
                proof (cases "list_free crr w2")
                  case None
                  with r w1 w2 show ?thesis by simp
                next
                  case (Some a)
                  show ?thesis
                  proof (cases a)
                    case (Inl e)
                    with r w1 w2 Some have "r = Inl e" by simp
                    then show ?thesis by (simp add: chain_effect_Inl)
                  next
                    case (Inr w3)
                    with Some t2 have t3: "table w3 = table w" by (simp add: list_free_table)
                    from r w1 w2 Some Inr have "r = Inr (upd_table
                      (\<lambda>t. t\<lparr>overflow_list := (overflow_list t)[index := head]\<rparr>) w3)" by simp
                    then show ?thesis using chain_effectI2[OF t3] by simp
                  qed
                qed
              qed
            qed
          qed
        qed
      qed
    qed
  qed
qed

lemma free_item_chain_table:
  "free_item_chain index k head c p w = Some (Inr w') \<Longrightarrow>
   table w' = table w \<or>
   (\<exists>x. table w' =
      map_option (\<lambda>t. t\<lparr>overflow_list := (overflow_list t)[index := x]\<rparr>) (table w))"
  using free_item_chain_table_aux[of index k head c p w "Inr w'"]
  by (simp add: chain_effect_def)

lemma handle_collision_table:
  assumes "handle_collision index item w = Some (Inr w')"
  shows "\<exists>x. table w' =
      map_option (\<lambda>t. t\<lparr>overflow_list := (overflow_list t)[index := x]\<rparr>) (table w)"
proof -
  from assms obtain t where t: "table w = Some t"
    by (auto simp: handle_collision_def split: option.splits)
  from assms t have len: "index < length (overflow_list t)"
    by (auto simp: handle_collision_def split: if_splits)
  show ?thesis
  proof (cases "overflow_list t ! index = 0")
    case True
    with assms t len show ?thesis
      by (auto simp: handle_collision_def list_alloc_def upd_table_def set_node_item_def
          split: sum.splits)
  next
    case False
    with assms t len obtain l w1 where
      li: "list_insert (overflow_list t ! index) item w = Some (Inr (l, w1))" and
      w': "w' = upd_table (\<lambda>t. t\<lparr>overflow_list := (overflow_list t)[index := l]\<rparr>) w1"
      by (auto simp: handle_collision_def split: option.splits sum.splits)
    from list_insert_table[OF li] w' show ?thesis
      by (auto simp: upd_table_def)
  qed
qed

section \<open>The invariant\<close>

lemma filter_update_length:
  "i < length xs \<Longrightarrow>
   length (filter P (xs[i := v])) + (if P (xs ! i) then 1 else 0) =
   length (filter P xs) + (if P v then 1 else 0)"
proof (induction xs arbitrary: i)
  case Nil
  then show ?case by simp
next
  case (Cons x xs)
  then show ?case by (cases i) auto
qed

lemma table_inv_overflow:
  "table_inv t \<Longrightarrow> index < HASH_TABLE_SIZE \<Longrightarrow> items t ! index \<noteq> 0 \<or> x = 0 \<Longrightarrow>
   table_inv (t\<lparr>overflow_list := (overflow_list t)[index := x]\<rparr>)"
  by (auto simp: table_inv_def nth_list_update)

lemma table_inv_insert:
  assumes "table_inv t" "index < HASH_TABLE_SIZE" "items t ! index = 0" "a \<noteq> 0"
  shows "table_inv (t\<lparr>items := (items t)[index := a], table_count := table_count t + 1\<rparr>)"
proof -
  from assms have len: "index < length (items t)" by (simp add: table_inv_def)
  from filter_update_length[OF len, of "\<lambda>p. p \<noteq> 0" a] assms(3,4)
  have "length (filter (\<lambda>p. p \<noteq> 0) ((items t)[index := a])) =
        Suc (length (filter (\<lambda>p. p \<noteq> 0) (items t)))" by simp
  with assms show ?thesis
    by (auto simp: table_inv_def nth_list_update)
qed

lemma table_inv_replace:
  assumes "table_inv t" "index < HASH_TABLE_SIZE" "items t ! index \<noteq> 0" "a \<noteq> 0"
  shows "table_inv (t\<lparr>items := (items t)[index := a]\<rparr>)"
proof -
  from assms have len: "index < length (items t)" by (simp add: table_inv_def)
  from filter_update_length[OF len, of "\<lambda>p. p \<noteq> 0" a] assms(3,4)
  have "length (filter (\<lambda>p. p \<noteq> 0) ((items t)[index := a])) =
        length (filter (\<lambda>p. p \<noteq> 0) (items t))" by simp
  with assms show ?thesis
    by (auto simp: table_inv_def nth_list_update)
qed

lemma table_inv_remove:
  assumes "table_inv t" "index < HASH_TABLE_SIZE" "items t ! index \<noteq> 0"
    "overflow_list t ! index = 0"
  shows "table_inv (t\<lparr>items := (items t)[index := 0], table_count := table_count t - 1\<rparr>)"
proof -
  from assms have len: "index < length (items t)" by (simp add: table_inv_def)
  from filter_update_length[OF len, of "\<lambda>p. p \<noteq> 0" 0] assms(3)
  have "length (filter (\<lambda>p. p \<noteq> 0) ((items t)[index := 0])) + 1 =
        length (filter (\<lambda>p. p \<noteq> 0) (items t))" by simp
  with assms show ?thesis
    by (auto simp: table_inv_def nth_list_update)
qed

lemma filter_length_all:
  "length (filter P xs) = length xs \<Longrightarrow> x \<in> set xs \<Longrightarrow> P x"
  using length_filter_less[of x xs P] by auto

lemma table_inv_full:
  assumes "table_inv t" "table_count t = table_size t" "index < HASH_TABLE_SIZE"
  shows "items t ! index \<noteq> 0"
proof -
  from assms have "length (filter (\<lambda>p. p \<noteq> 0) (items t)) = length (items t)"
    by (simp add: table_inv_def)
  moreover from assms have "items t ! index \<in> set (items t)"
    by (simp add: table_inv_def)
  ultimately show ?thesis by (rule filter_length_all)
qed

section \<open>The paths of \<^verbatim>\<open>lv_insert_buf_map\<close>\<close>

lemma alloc_item_simps:
  "table (alloc_item k v w) = table w"
  "node_mem (alloc_item k v w) = node_mem w"
  "trace (alloc_item k v w) = trace w"
  "junk (alloc_item k v w) = junk w"
  "brk (alloc_item k v w) = Suc (brk w)"
  "item_mem (alloc_item k v w) = (item_mem w)(Suc (brk w) \<mapsto> \<lparr>item_key = k, item_value = v\<rparr>)"
  by (simp_all add: alloc_item_def map_create_item_def Let_def)

lemma map_create_item_eq: "map_create_item k v w = (Suc (brk w), alloc_item k v w)"
  by (simp add: alloc_item_def map_create_item_def Let_def)

lemma insert_empty:
  assumes "table w = Some t" "map_hash_function fmt k < length (items t)"
    "items t ! map_hash_function fmt k = 0" "table_count t \<noteq> table_size t"
  shows "lv_insert_buf_map fmt k v w =
     Some (Inr (upd_table (\<lambda>t. t\<lparr>items := (items t)[map_hash_function fmt k := Suc (brk w)],
                                  table_count := table_count t + 1\<rparr>) (alloc_item k v w)))"
  using assms
  by (simp add: lv_insert_buf_map_def map_create_item_eq alloc_item_simps Let_def)

lemma insert_full:
  assumes "table w = Some t" "map_hash_function fmt k < length (items t)"
    "items t ! map_hash_function fmt k = 0" "table_count t = table_size t"
  shows "lv_insert_buf_map fmt k v w =
     Some (Inr (g2d_assert_msg full_msg
       ((alloc_item k v w)\<lparr>trace := trace w @ [Lv_free_key k, G2d_free v],
                             item_mem := (item_mem w)(Suc (brk w) := None)\<rparr>)))"
  using assms
  by (simp add: lv_insert_buf_map_def map_create_item_eq alloc_item_simps Let_def
      map_free_item_def)

lemma insert_update:
  assumes "table w = Some t" "map_hash_function fmt k < length (items t)"
    "items t ! map_hash_function fmt k \<noteq> 0"
    "item_mem (alloc_item k v w) (items t ! map_hash_function fmt k) = Some cur"
    "item_key cur = k"
  shows "lv_insert_buf_map fmt k v w =
     Some (Inr ((alloc_item k v w)\<lparr>item_mem := (item_mem (alloc_item k v w))
         (items t ! map_hash_function fmt k \<mapsto> cur\<lparr>item_value := v\<rparr>)\<rparr>))"
  using assms
  by (simp add: lv_insert_buf_map_def map_create_item_eq alloc_item_simps Let_def)

lemma insert_collision:
  assumes "table w = Some t" "map_hash_function fmt k < length (items t)"
    "items t ! map_hash_function fmt k \<noteq> 0"
    "item_mem (alloc_item k v w) (items t ! map_hash_function fmt k) = Some cur"
    "item_key cur \<noteq> k"
  shows "lv_insert_buf_map fmt k v w =
     handle_collision (map_hash_function fmt k) (Suc (brk w)) (alloc_item k v w)"
  using assms
  by (simp add: lv_insert_buf_map_def map_create_item_eq alloc_item_simps Let_def)

lemma insert_dangling:
  assumes "table w = Some t" "map_hash_function fmt k < length (items t)"
    "items t ! map_hash_function fmt k \<noteq> 0"
    "item_mem (alloc_item k v w) (items t ! map_hash_function fmt k) = None"
  shows "lv_insert_buf_map fmt k v w =
     Some (Inl (Invalid_deref (items t ! map_hash_function fmt k)))"
  using assms
  by (simp add: lv_insert_buf_map_def map_create_item_eq alloc_item_simps Let_def)

lemma lv_insert_buf_map_inv:
  assumes t: "table w = Some t" and inv: "table_inv t"
    and ins: "lv_insert_buf_map fmt k v w = Some (Inr w')"
  shows "\<exists>t'. table w' = Some t' \<and> table_inv t'"
proof -
  let ?i = "map_hash_function fmt k"
  have idx: "?i < HASH_TABLE_SIZE" by (rule map_hash_function_less)
  with inv have len: "?i < length (items t)" by (simp add: table_inv_def)
  show ?thesis
  proof (cases "items t ! ?i = 0")
    case True
    show ?thesis
    proof (cases "table_count t = table_size t")
      case True
      with table_inv_full[OF inv True idx] \<open>items t ! ?i = 0\<close> show ?thesis by simp
    next
      case False
      from insert_empty[OF t len True False, of v] ins
      have "w' = upd_table (\<lambda>t. t\<lparr>items := (items t)[?i := Suc (brk w)],
                                  table_count := table_count t + 1\<rparr>) (alloc_item k v w)"
        by simp
      then have "table w' = Some (t\<lparr>items := (items t)[?i := Suc (brk w)],
                                  table_count := table_count t + 1\<rparr>)"
        by (simp add: upd_table_def alloc_item_simps t)
      moreover have "table_inv (t\<lparr>items := (items t)[?i := Suc (brk w)],
                                  table_count := table_count t + 1\<rparr>)"
        by (rule table_inv_insert[OF inv idx True]) simp
      ultimately show ?thesis by blast
    qed
  next
    case False
    show ?thesis
    proof (cases "item_mem (alloc_item k v w) (items t ! ?i)")
      case None
      from insert_dangling[OF t len False None] ins show ?thesis by simp
    next
      case (Some cur)
      show ?thesis
      proof (cases "item_key cur = k")
        case True
        from insert_update[OF t len False Some True] ins
        have "table w' = table w" by (auto simp: alloc_item_simps)
        with t inv show ?thesis by simp
      next
        case False
        from insert_collision[OF t len \<open>items t ! ?i \<noteq> 0\<close> Some False] ins
        have "handle_collision ?i (Suc (brk w)) (alloc_item k v w) = Some (Inr w')" by simp
        from handle_collision_table[OF this] obtain x where
          "table w' = Some (t\<lparr>overflow_list := (overflow_list t)[?i := x]\<rparr>)"
          by (auto simp: alloc_item_simps t)
        moreover have "table_inv (t\<lparr>overflow_list := (overflow_list t)[?i := x]\<rparr>)"
          using \<open>items t ! ?i \<noteq> 0\<close> by (intro table_inv_overflow[OF inv idx]) simp
        ultimately show ?thesis by blast
      qed
    qed
  qed
qed

section \<open>The paths of \<^verbatim>\<open>lv_free_item\<close>\<close>

lemma free_item_promote_table:
  assumes "free_item_promote index item head w = Some (Inr w')"
  shows "\<exists>a x. a \<noteq> 0 \<and> table w' =
     map_option (\<lambda>t. t\<lparr>items := (items t)[index := a],
                          overflow_list := (overflow_list t)[index := x]\<rparr>) (table w)"
proof -
  from assms obtain w1 where w1: "map_free_item item w = Inr w1"
    by (auto simp: free_item_promote_def split: sum.splits)
  from assms w1 obtain node where node: "node_mem w1 head = Some node"
    by (auto simp: free_item_promote_def split: option.splits)
  from assms w1 node obtain w2 where w2: "set_node_next head 0 w1 = Inr w2"
    by (auto simp: free_item_promote_def split: sum.splits)
  from assms w1 node w2 obtain ni where ni: "item_mem w2 (node_item node) = Some ni"
    by (auto simp: free_item_promote_def split: option.splits)
  let ?w3 = "alloc_item (item_key ni) (item_value ni) w2"
  let ?w4 = "upd_table (\<lambda>t. t\<lparr>items := (items t)[index := Suc (brk w2)]\<rparr>) ?w3"
  from assms w1 node w2 ni obtain w5 where
    w5: "list_free head ?w4 = Some (Inr w5)" and
    w': "w' = upd_table (\<lambda>t. t\<lparr>overflow_list :=
                                   (overflow_list t)[index := node_next node]\<rparr>) w5"
    by (auto simp: free_item_promote_def map_create_item_eq Let_def
        split: option.splits sum.splits)
  have t2: "table w2 = table w"
    using map_free_item_table[OF w1] set_node_next_table[OF w2] by simp
  have t4: "table ?w4 =
      map_option (\<lambda>t. t\<lparr>items := (items t)[index := Suc (brk w2)]\<rparr>) (table w)"
    by (simp add: upd_table_def alloc_item_simps t2)
  have t5: "table w5 = table ?w4" by (rule list_free_table[OF w5])
  have "table w' =
      map_option (\<lambda>t. t\<lparr>overflow_list := (overflow_list t)[index := node_next node]\<rparr>)
        (table w5)"
    by (simp add: w' upd_table_def)
  also have "\<dots> = map_option (\<lambda>t. t\<lparr>items := (items t)[index := Suc (brk w2)],
                          overflow_list := (overflow_list t)[index := node_next node]\<rparr>) (table w)"
    unfolding t5 t4 by (simp add: option.map_comp comp_def)
  finally have "table w' = map_option (\<lambda>t. t\<lparr>items := (items t)[index := Suc (brk w2)],
                          overflow_list := (overflow_list t)[index := node_next node]\<rparr>) (table w)" .
  then show ?thesis by blast
qed

lemma free_item_absent:
  assumes "table w = Some t" "map_hash_function fmt k < length (items t)"
    "map_hash_function fmt k < length (overflow_list t)"
    "items t ! map_hash_function fmt k = 0"
  shows "lv_free_item fmt k w = Some (Inr w)"
  using assms by (simp add: lv_free_item_def Let_def)

lemma free_item_dangling:
  assumes "table w = Some t" "map_hash_function fmt k < length (items t)"
    "map_hash_function fmt k < length (overflow_list t)"
    "items t ! map_hash_function fmt k \<noteq> 0"
    "item_mem w (items t ! map_hash_function fmt k) = None"
  shows "lv_free_item fmt k w = Some (Inl (Invalid_deref (items t ! map_hash_function fmt k)))"
  using assms by (simp add: lv_free_item_def Let_def)

lemma free_item_plain:
  assumes "table w = Some t" "map_hash_function fmt k < length (items t)"
    "map_hash_function fmt k < length (overflow_list t)"
    "items t ! map_hash_function fmt k \<noteq> 0"
    "item_mem w (items t ! map_hash_function fmt k) = Some it"
    "overflow_list t ! map_hash_function fmt k = 0" "item_key it = k"
  shows "lv_free_item fmt k w =
     Some (Inr (w\<lparr>table := Some (t\<lparr>items := (items t)[map_hash_function fmt k := 0],
                                     table_count := table_count t - 1\<rparr>),
                   trace := trace w @ [Lv_free_key k, G2d_free (item_value it)],
                   item_mem := (item_mem w)(items t ! map_hash_function fmt k := None)\<rparr>))"
  using assms by (simp add: lv_free_item_def Let_def map_free_item_def upd_table_def)

lemma free_item_other:
  assumes "table w = Some t" "map_hash_function fmt k < length (items t)"
    "map_hash_function fmt k < length (overflow_list t)"
    "items t ! map_hash_function fmt k \<noteq> 0"
    "item_mem w (items t ! map_hash_function fmt k) = Some it"
    "overflow_list t ! map_hash_function fmt k = 0" "item_key it \<noteq> k"
  shows "lv_free_item fmt k w = Some (Inr w)"
  using assms by (simp add: lv_free_item_def Let_def)

lemma free_item_primary:
  assumes "table w = Some t" "map_hash_function fmt k < length (items t)"
    "map_hash_function fmt k < length (overflow_list t)"
    "items t ! map_hash_function fmt k \<noteq> 0"
    "item_mem w (items t ! map_hash_function fmt k) = Some it"
    "overflow_list t ! map_hash_function fmt k \<noteq> 0" "item_key it = k"
  shows "lv_free_item fmt k w =
     free_item_promote (map_hash_function fmt k) (items t ! map_hash_function fmt k)
       (overflow_list t ! map_hash_function fmt k) w"
  using assms by (simp add: lv_free_item_def Let_def)

lemma free_item_in_chain:
  assumes "table w = Some t" "map_hash_function fmt k < length (items t)"
    "map_hash_function fmt k < length (overflow_list t)"
    "items t ! map_hash_function fmt k \<noteq> 0"
    "item_mem w (items t ! map_hash_function fmt k) = Some it"
    "overflow_list t ! map_hash_function fmt k \<noteq> 0" "item_key it \<noteq> k"
  shows "lv_free_item fmt k w =
     free_item_chain (map_hash_function fmt k) k (overflow_list t ! map_hash_function fmt k)
       (overflow_list t ! map_hash_function fmt k) 0 w"
  using assms by (simp add: lv_free_item_def Let_def)

lemma lv_free_item_inv:
  assumes t: "table w = Some t" and inv: "table_inv t"
    and rm: "lv_free_item fmt k w = Some (Inr w')"
  shows "\<exists>t'. table w' = Some t' \<and> table_inv t'"
proof -
  let ?i = "map_hash_function fmt k"
  have idx: "?i < HASH_TABLE_SIZE" by (rule map_hash_function_less)
  with inv have len: "?i < length (items t)" and len': "?i < length (overflow_list t)"
    by (simp_all add: table_inv_def)
  show ?thesis
  proof (cases "items t ! ?i = 0")
    case True
    from free_item_absent[OF t len len' True] rm t inv show ?thesis by auto
  next
    case False
    note occ = this
    show ?thesis
    proof (cases "item_mem w (items t ! ?i)")
      case None
      from free_item_dangling[OF t len len' occ None] rm show ?thesis by simp
    next
      case (Some it)
      note it = this
      show ?thesis
      proof (cases "overflow_list t ! ?i = 0")
        case True
        note nochain = this
        show ?thesis
        proof (cases "item_key it = k")
          case True
          from free_item_plain[OF t len len' occ it nochain True] rm
          have "table w' = Some (t\<lparr>items := (items t)[?i := 0],
                                     table_count := table_count t - 1\<rparr>)"
            by auto
          moreover have "table_inv (t\<lparr>items := (items t)[?i := 0],
                                     table_count := table_count t - 1\<rparr>)"
            by (rule table_inv_remove[OF inv idx occ nochain])
          ultimately show ?thesis by blast
        next
          case False
          from free_item_other[OF t len len' occ it nochain False] rm t inv
          show ?thesis by auto
        qed
      next
        case False
        note chain = this
        show ?thesis
        proof (cases "item_key it = k")
          case True
          from free_item_primary[OF t len len' occ it chain True] rm
          have "free_item_promote ?i (items t ! ?i) (overflow_list t ! ?i) w = Some (Inr w')"
            by simp
          from free_item_promote_table[OF this] obtain a x where a: "a \<noteq> 0" and
            t': "table w' = Some (t\<lparr>items := (items t)[?i := a],
                                     overflow_list := (overflow_list t)[?i := x]\<rparr>)"
            by (auto simp: t)
          have 1: "table_inv (t\<lparr>items := (items t)[?i := a]\<rparr>)"
            by (rule table_inv_replace[OF inv idx occ a])
          have "table_inv ((t\<lparr>items := (items t)[?i := a]\<rparr>)
                  \<lparr>overflow_list := (overflow_list (t\<lparr>items := (items t)[?i := a]\<rparr>))[?i := x]\<rparr>)"
            using len a by (intro table_inv_overflow[OF 1 idx]) simp
          then have "table_inv (t\<lparr>items := (items t)[?i := a],
                                     overflow_list := (overflow_list t)[?i := x]\<rparr>)"
            by simp
          with t' show ?thesis by blast
        next
          case False
          from free_item_in_chain[OF t len len' occ it chain False] rm
          have "free_item_chain ?i k (overflow_list t ! ?i) (overflow_list t ! ?i) 0 w =
                  Some (Inr w')" by simp
          from free_item_chain_table[OF this]
          have "table w' = Some t \<or>
                (\<exists>x. table w' = Some (t\<lparr>overflow_list := (overflow_list t)[?i := x]\<rparr>))"
            by (simp add: t)
          moreover have "\<And>x. table_inv (t\<lparr>overflow_list := (overflow_list t)[?i := x]\<rparr>)"
            using occ by (intro table_inv_overflow[OF inv idx]) simp
          ultimately show ?thesis using inv by blast
        qed
      qed
    qed
  qed
qed

section \<open>Reachable states satisfy the invariant\<close>

lemma lv_create_buf_map_inv: "\<exists>t. table (lv_create_buf_map w) = Some t \<and> table_inv t"
  by (simp add: lv_create_buf_map_def table_inv_def)

lemma reachable_inv: "reachable fmt w \<Longrightarrow> \<exists>t. table w = Some t \<and> table_inv t"
proof (induction rule: reachable.induct)
  case (created w)
  show ?case by (rule lv_create_buf_map_inv)
next
  case (inserted w k v w')
  then obtain t where "table w = Some t" "table_inv t" by blast
  then show ?case using inserted.hyps(2) by (rule lv_insert_buf_map_inv)
next
  case (removed w k w')
  then obtain t where "table w = Some t" "table_inv t" by blast
  then show ?case using removed.hyps(2) by (rule lv_free_item_inv)
qed

section \<open>Runs and the states used as examples\<close>

lemma calls_reachable:
  "reachable fmt w \<Longrightarrow> Destroy \<notin> set cs \<Longrightarrow> calls fmt cs w = Some (Inr w') \<Longrightarrow>
   reachable fmt w'"
proof (induction cs arbitrary: w)
  case Nil
  then show ?case by simp
next
  case (Cons c cs)
  show ?case
  proof (cases c)
    case (Insert k v)
    with Cons.prems(3) obtain w1 where
      1: "lv_insert_buf_map fmt k v w = Some (Inr w1)" and 2: "calls fmt cs w1 = Some (Inr w')"
      by (auto split: option.splits sum.splits)
    from Cons.prems(1) 1 have "reachable fmt w1" by (rule reachable.inserted)
    then show ?thesis using Cons.prems(2) 2 by (intro Cons.IH) auto
  next
    case (Remove k)
    with Cons.prems(3) obtain w1 where
      1: "lv_free_item fmt k w = Some (Inr w1)" and 2: "calls fmt cs w1 = Some (Inr w')"
      by (auto split: option.splits sum.splits)
    from Cons.prems(1) 1 have "reachable fmt w1" by (rule reachable.removed)
    then show ?thesis using Cons.prems(2) 2 by (intro Cons.IH) auto
  next
    case Destroy
    with Cons.prems(2) show ?thesis by simp
  qed
qed

lemma seen_world_after:
  "seen f (calls fmt cs w) = Some (Inr x) \<Longrightarrow>
   calls fmt cs w = Some (Inr (world_after fmt cs w))"
  by (auto simp: seen_def world_after_def split: option.splits sum.splits)

lemma alloc_item_lookup:
  "item_key cur = k \<Longrightarrow> item_mem w a = Some cur \<Longrightarrow>
   \<exists>c. item_mem (alloc_item k v w) a = Some c \<and> item_key c = k \<and>
       c\<lparr>item_value := v\<rparr> = cur\<lparr>item_value := v\<rparr>"
  by (cases cur) (auto simp: alloc_item_simps)

lemma one_entry_run:
  "calls glibc_p [Insert 258 1001] (lv_create_buf_map boot) = Some (Inr one_entry)"
  unfolding one_entry_def
proof (rule seen_world_after)
  show "seen (\<lambda>w. ()) (calls glibc_p [Insert 258 1001] (lv_create_buf_map boot)) = Some (Inr ())"
    by code_simp
qed

lemma one_entry_reachable: "reachable glibc_p one_entry"
  by (rule calls_reachable[OF reachable.created _ one_entry_run]) simp

lemma one_entry_table:
  "table one_entry = Some \<lparr>items = (replicate 50 0)[15 := 4], overflow_list = replicate 50 0,
      table_size = 50, table_count = 1\<rparr>"
  unfolding one_entry_def by code_simp

lemma one_entry_item: "item_mem one_entry 4 = Some \<lparr>item_key = 258, item_value = 1001\<rparr>"
  unfolding one_entry_def by code_simp

lemma hash_values:
  "map_hash_function glibc_p 258 = 15" "map_hash_function glibc_p 288 = 15"
  "map_hash_function glibc_p 513 = 15" "map_hash_function glibc_p 18 = 17"
  by code_simp+

lemma calls_single_insert:
  "calls fmt [Insert k v] w = Some (Inr w') \<Longrightarrow> lv_insert_buf_map fmt k v w = Some (Inr w')"
  by (auto split: option.splits sum.splits)

lemma two_entries_run: "lv_insert_buf_map glibc_p 288 1002 one_entry = Some (Inr two_entries)"
  unfolding two_entries_def
proof (rule calls_single_insert, rule seen_world_after)
  show "seen (\<lambda>w. ()) (calls glibc_p [Insert 288 1002] one_entry) = Some (Inr ())"
    by code_simp
qed

lemma two_entries_reachable: "reachable glibc_p two_entries"
  using one_entry_reachable two_entries_run by (rule reachable.inserted)

lemma two_entries_table:
  "table two_entries = Some \<lparr>items = (replicate 50 0)[15 := 4],
      overflow_list = (replicate 50 0)[15 := 6], table_size = 50, table_count = 1\<rparr>"
  unfolding two_entries_def by code_simp

lemma two_entries_items:
  "item_mem two_entries 4 = Some \<lparr>item_key = 258, item_value = 1001\<rparr>"
  "item_mem two_entries 5 = Some \<lparr>item_key = 288, item_value = 1002\<rparr>"
  "node_mem two_entries 6 = Some \<lparr>node_item = 5, node_next = 0\<rparr>"
  "brk two_entries = 6"
  unfolding two_entries_def by code_simp+

lemma counter_at_capacity_table:
  "table counter_at_capacity = Some \<lparr>items = replicate 50 0, overflow_list = replicate 50 0,
      table_size = 50, table_count = 50\<rparr>"
  by (simp add: counter_at_capacity_def upd_table_def lv_create_buf_map_def HASH_TABLE_SIZE_def)

lemma insert_out_of_bounds:
  assumes "table w = Some t" "length (items t) \<le> map_hash_function fmt k"
  shows "lv_insert_buf_map fmt k v w = Some (Inl (Out_of_bounds (map_hash_function fmt k)))"
  using assms
  by (simp add: lv_insert_buf_map_def map_create_item_eq alloc_item_simps Let_def)

section \<open>The claims\<close>

subsection \<open>Lookup\<close>

text \<open>
  C1. After \<^verbatim>\<open>insert(k, r)\<close>, \<^verbatim>\<open>find(k)\<close> is to return \<open>r\<close>, also when the
  entry of \<open>k\<close> lives in the overflow chain. The code does not: with the keys
  \<^verbatim>\<open>0x102\<close> and \<^verbatim>\<open>0x120\<close> inserted into a fresh table, the second lands in the
  chain of the first, and \<^verbatim>\<open>lv_search_buf_map(0x120)\<close> returns \<^verbatim>\<open>NULL\<close>: it
  reads the first node of the chain and compares nothing.
\<close>

theorem search_misses_chained_key:
  "seen (lv_search_buf_map glibc_p 288)
     (calls glibc_p [Insert 258 1001, Insert 288 1002] (lv_create_buf_map boot)) =
   Some (Inr (Inr 0))"
  by code_simp

subsection \<open>Release of resources\<close>

text \<open>
  C2. Over the lifetime of the table every stored resource is to be released exactly
  once. The code does not: after \<^verbatim>\<open>insert(0x102, 1001)\<close>, \<^verbatim>\<open>insert(0x120, 1002)\<close>,
  \<^verbatim>\<open>remove(0x102)\<close> and \<^verbatim>\<open>lv_free_buf_map\<close>, the recorded calls release the
  key \<^verbatim>\<open>0x120\<close> and the resource \<open>1002\<close> twice: once when the entry is promoted,
  once when the table is destroyed.
\<close>

theorem lifetime_releases_promoted_resource_twice:
  "seen trace
     (calls glibc_p [Insert 258 1001, Insert 288 1002, Remove 258, Destroy]
        (lv_create_buf_map boot)) =
   Some (Inr [Lv_free_key 258, G2d_free 1001, Lv_free_key 288, G2d_free 1002,
              Lv_free_key 288, G2d_free 1002])"
  by code_simp

subsection \<open>Removal\<close>

text \<open>
  C3. When the key of the primary slot is removed and the bucket has a chain, the head
  of the chain is to move into the slot and keep its key and its resource. The code
  copies the key and the value into a new item and then frees the head node through
  \<^verbatim>\<open>_list_free\<close>, which releases that key and that value: after
  \<^verbatim>\<open>remove(0x102)\<close> both have been released, while the slot still holds them and
  \<^verbatim>\<open>lv_search_buf_map(0x120)\<close> still returns the released handle.
\<close>

theorem promotion_releases_promoted_entry:
  "seen (\<lambda>w. (trace w, map_option (\<lambda>t. item_mem w (items t ! 15)) (table w),
               lv_search_buf_map glibc_p 288 w))
     (calls glibc_p [Insert 258 1001, Insert 288 1002, Remove 258] (lv_create_buf_map boot)) =
   Some (Inr ([Lv_free_key 258, G2d_free 1001, Lv_free_key 288, G2d_free 1002],
              Some (Some \<lparr>item_key = 288, item_value = 1002\<rparr>),
              Inr 1002))"
  by code_simp

text \<open>
  C4. Removing a key from the middle of a chain is to splice out exactly its node, and
  with three keys in one bucket removing the second is to leave the other two findable.
  The code advances with \<^verbatim>\<open>curr = curr->next; prev = curr;\<close>, so from the second
  node on \<^verbatim>\<open>prev\<close> is \<^verbatim>\<open>curr\<close>, and the predecessor is not relinked: after
  \<^verbatim>\<open>remove(0x201)\<close> the node at 6 still points to the freed node at 8, and
  \<^verbatim>\<open>lv_free_buf_map\<close> then dereferences it. Removing the second key,
  \<^verbatim>\<open>0x120\<close>, the head of the chain, frees the whole chain, the entry of
  \<^verbatim>\<open>0x201\<close> included.
\<close>

theorem chain_removal_leaves_dangling_link:
  "seen (\<lambda>w. (node_mem w 6, node_mem w 8))
     (calls glibc_p [Insert 258 1001, Insert 288 1002, Insert 513 1003, Remove 513]
        (lv_create_buf_map boot)) =
   Some (Inr (Some \<lparr>node_item = 5, node_next = 8\<rparr>, None)) \<and>
   seen trace
     (calls glibc_p [Insert 258 1001, Insert 288 1002, Insert 513 1003, Remove 513, Destroy]
        (lv_create_buf_map boot)) =
   Some (Inl (Invalid_deref 8)) \<and>
   seen (\<lambda>w. (trace w, map_option (\<lambda>t. overflow_list t ! 15) (table w)))
     (calls glibc_p [Insert 258 1001, Insert 288 1002, Insert 513 1003, Remove 288]
        (lv_create_buf_map boot)) =
   Some (Inr ([Lv_free_key 288, G2d_free 1002, Lv_free_key 513, G2d_free 1003], Some 0))"
  by code_simp

text \<open>
  C8. \<^verbatim>\<open>remove(k)\<close> twice in a row: the second call is to be a no-op that does
  not crash. The code does not guarantee it: the first \<^verbatim>\<open>remove(0x201)\<close> returns and
  leaves the dangling link of C4, and the second one follows that link into the freed
  node.
\<close>

theorem repeated_remove_faults:
  "seen trace
     (calls glibc_p [Insert 258 1001, Insert 288 1002, Insert 513 1003, Remove 513]
        (lv_create_buf_map boot)) =
   Some (Inr [Lv_free_key 513, G2d_free 1003]) \<and>
   seen trace
     (calls glibc_p [Insert 258 1001, Insert 288 1002, Insert 513 1003, Remove 513, Remove 513]
        (lv_create_buf_map boot)) =
   Some (Inl (Invalid_deref 8))"
  by code_simp

subsection \<open>The counter\<close>

text \<open>
  C5. In every reachable state \<^verbatim>\<open>count\<close> is the number of occupied primary
  slots. So no key finds its primary slot empty while \<^verbatim>\<open>count == size\<close>, and an
  insertion whose key hashes to an empty primary slot returns with the entry stored in
  that slot, the counter incremented and nothing released or logged.
\<close>

theorem count_is_primary_occupancy:
  assumes "reachable fmt w" and "table w = Some t"
  shows "table_count t = int (length (filter (\<lambda>p. p \<noteq> 0) (items t))) \<and>
         (\<forall>k'. \<not> (items t ! map_hash_function fmt k' = 0 \<and> table_count t = table_size t)) \<and>
         (items t ! map_hash_function fmt k = 0 \<longrightarrow>
            (\<exists>w' t'. lv_insert_buf_map fmt k v w = Some (Inr w') \<and> table w' = Some t' \<and>
               item_mem w' (items t' ! map_hash_function fmt k) =
                 Some \<lparr>item_key = k, item_value = v\<rparr> \<and>
               table_count t' = table_count t + 1 \<and> trace w' = trace w))"
proof -
  from reachable_inv[OF assms(1)] assms(2) have inv: "table_inv t" by simp
  have idx: "\<And>k. map_hash_function fmt k < HASH_TABLE_SIZE" by (rule map_hash_function_less)
  with inv have len: "\<And>k. map_hash_function fmt k < length (items t)"
    by (simp add: table_inv_def)
  have 1: "table_count t = int (length (filter (\<lambda>p. p \<noteq> 0) (items t)))"
    using inv by (simp add: table_inv_def)
  have 2: "\<not> (items t ! map_hash_function fmt k' = 0 \<and> table_count t = table_size t)" for k'
    using table_inv_full[OF inv _ idx] by blast
  have 3: "\<exists>w' t'. lv_insert_buf_map fmt k v w = Some (Inr w') \<and> table w' = Some t' \<and>
               item_mem w' (items t' ! map_hash_function fmt k) =
                 Some \<lparr>item_key = k, item_value = v\<rparr> \<and>
               table_count t' = table_count t + 1 \<and> trace w' = trace w"
    if empty: "items t ! map_hash_function fmt k = 0"
  proof -
    from 2[of k] empty have "table_count t \<noteq> table_size t" by simp
    from insert_empty[OF assms(2) len empty this, of v] assms(2) len[of k] show ?thesis
      by (simp add: upd_table_def alloc_item_simps)
  qed
  from 1 2 3 show ?thesis by blast
qed

text \<open>The table after one insertion is reachable; the key \<^verbatim>\<open>0x12\<close> hashes to the empty
  slot 17 and is inserted.\<close>

theorem count_is_primary_occupancy_witness:
  "reachable glibc_p one_entry \<and>
   table one_entry = Some \<lparr>items = (replicate 50 0)[15 := 4], overflow_list = replicate 50 0,
      table_size = 50, table_count = 1\<rparr> \<and>
   (1::int) = int (length (filter (\<lambda>p. p \<noteq> 0) ((replicate 50 (0::nat))[15 := 4]))) \<and>
   (\<exists>w' t'. lv_insert_buf_map glibc_p 18 1005 one_entry = Some (Inr w') \<and> table w' = Some t' \<and>
      item_mem w' (items t' ! 17) = Some \<lparr>item_key = 18, item_value = 1005\<rparr> \<and>
      table_count t' = 2 \<and> trace w' = trace one_entry)"
  using count_is_primary_occupancy[OF one_entry_reachable one_entry_table, of 18 1005]
    one_entry_reachable one_entry_table
  by (simp add: hash_values)

text \<open>
  C7. An insertion that returns leaves \<^verbatim>\<open>count\<close> as it was, except when the
  primary slot of the key is empty and the table is not full: then it adds one. So an
  insertion into a chain (the primary slot is occupied) does not change the counter, an
  insertion into a primary slot increments it, and no insertion decrements it.
\<close>

theorem insert_count_change:
  assumes "table w = Some t"
    and "lv_insert_buf_map fmt k v w = Some (Inr w')"
  shows "\<exists>t'. table w' = Some t' \<and>
           table_count t' =
             (if items t ! map_hash_function fmt k = 0 \<and> table_count t \<noteq> table_size t
              then table_count t + 1 else table_count t)"
proof -
  let ?i = "map_hash_function fmt k"
  have len: "?i < length (items t)"
  proof (rule ccontr)
    assume "\<not> ?i < length (items t)"
    then have "length (items t) \<le> ?i" by simp
    from insert_out_of_bounds[OF assms(1) this] assms(2) show False by simp
  qed
  show ?thesis
  proof (cases "items t ! ?i = 0")
    case True
    show ?thesis
    proof (cases "table_count t = table_size t")
      case True
      from insert_full[OF assms(1) len \<open>items t ! ?i = 0\<close> True, of v] assms True
      show ?thesis by (auto simp: g2d_assert_msg_def alloc_item_simps)
    next
      case False
      from insert_empty[OF assms(1) len True False, of v] assms True False
      show ?thesis by (auto simp: upd_table_def alloc_item_simps)
    qed
  next
    case False
    show ?thesis
    proof (cases "item_mem (alloc_item k v w) (items t ! ?i)")
      case None
      from insert_dangling[OF assms(1) len False None] assms(2) show ?thesis by simp
    next
      case (Some cur)
      show ?thesis
      proof (cases "item_key cur = k")
        case True
        from insert_update[OF assms(1) len False Some True] assms False
        show ?thesis by (auto simp: alloc_item_simps)
      next
        case diff: False
        from insert_collision[OF assms(1) len False Some diff] assms(2)
        have "handle_collision ?i (Suc (brk w)) (alloc_item k v w) = Some (Inr w')" by simp
        from handle_collision_table[OF this] assms(1) False
        show ?thesis by (auto simp: alloc_item_simps)
      qed
    qed
  qed
qed

text \<open>From the table with one entry: the colliding key \<^verbatim>\<open>0x120\<close> goes to the chain and
  the counter stays 1; the key \<^verbatim>\<open>0x12\<close> goes to an empty slot and the counter becomes 2.\<close>

theorem insert_count_change_witness:
  "(\<exists>t'. table two_entries = Some t' \<and> table_count t' = 1) \<and>
   (\<exists>t'. table (world_after glibc_p [Insert 18 1005] one_entry) = Some t' \<and> table_count t' = 2)"
proof -
  have run: "lv_insert_buf_map glibc_p 18 1005 one_entry =
      Some (Inr (world_after glibc_p [Insert 18 1005] one_entry))"
  proof (rule calls_single_insert, rule seen_world_after)
    show "seen (\<lambda>w. ()) (calls glibc_p [Insert 18 1005] one_entry) = Some (Inr ())"
      by code_simp
  qed
  from insert_count_change[OF one_entry_table two_entries_run]
    insert_count_change[OF one_entry_table run]
  show ?thesis by (simp add: hash_values)
qed

subsection \<open>Insertion\<close>

text \<open>
  C6. When the primary slot of the key is empty and \<^verbatim>\<open>count == size\<close>, the
  insertion releases the key and the resource it was given, reports the failure through
  the assertion message, and returns: the table (slots, chains, counter) and the list
  nodes are unchanged, and the items are the ones from before, the item created for the
  call having been freed again.
\<close>

theorem insert_into_full_table_fails:
  assumes "table w = Some t"
    and "map_hash_function fmt k < length (items t)"
    and "items t ! map_hash_function fmt k = 0"
    and "table_count t = table_size t"
  shows "\<exists>w'. lv_insert_buf_map fmt k v w = Some (Inr w') \<and>
           trace w' = trace w @ [Lv_free_key k, G2d_free v, Assert_msg full_msg] \<and>
           table w' = table w \<and> node_mem w' = node_mem w \<and>
           item_mem w' = (item_mem w)(Suc (brk w) := None)"
  using insert_full[OF assms, of v]
  by (simp add: g2d_assert_msg_def alloc_item_simps full_msg_def)

text \<open>A fresh table whose counter has been set to 50.\<close>

theorem insert_into_full_table_fails_witness:
  "table counter_at_capacity = Some \<lparr>items = replicate 50 0, overflow_list = replicate 50 0,
      table_size = 50, table_count = 50\<rparr> \<and>
   (\<exists>w'. lv_insert_buf_map glibc_p 258 1001 counter_at_capacity = Some (Inr w') \<and>
      trace w' = [Lv_free_key 258, G2d_free 1001, Assert_msg full_msg] \<and>
      table w' = table counter_at_capacity \<and> node_mem w' = node_mem counter_at_capacity \<and>
      item_mem w' = (item_mem counter_at_capacity)(Suc (brk counter_at_capacity) := None))"
proof -
  have "trace counter_at_capacity = []"
    by (simp add: counter_at_capacity_def upd_table_def lv_create_buf_map_def boot_def)
  with insert_into_full_table_fails[OF counter_at_capacity_table, of glibc_p 258 1001]
    counter_at_capacity_table
  show ?thesis by (simp add: hash_values)
qed

text \<open>
  C9. Inserting with the key of the item in the primary slot replaces the value of that
  item in place and returns: nothing is released, so the old resource is not, and the
  table (slots, chain heads, counter) and the list nodes are unchanged. The items are
  the ones from before, with the new value in the item of the slot and with the item
  that was created for the call, which stays allocated and unused; so every Entry of
  the bucket's chain, node and item, is as it was.
\<close>

theorem insert_same_key_replaces_value:
  assumes "table w = Some t"
    and "map_hash_function fmt k < length (items t)"
    and "items t ! map_hash_function fmt k \<noteq> 0"
    and "item_mem w (items t ! map_hash_function fmt k) = Some cur"
    and "item_key cur = k"
  shows "\<exists>w'. lv_insert_buf_map fmt k v w = Some (Inr w') \<and>
           item_mem w' (items t ! map_hash_function fmt k) = Some (cur\<lparr>item_value := v\<rparr>) \<and>
           trace w' = trace w \<and> table w' = table w \<and> node_mem w' = node_mem w \<and>
           item_mem w' =
             ((item_mem w)(Suc (brk w) \<mapsto> \<lparr>item_key = k, item_value = v\<rparr>))
               (items t ! map_hash_function fmt k \<mapsto> cur\<lparr>item_value := v\<rparr>) \<and>
           brk w' = Suc (brk w) \<and> junk w' = junk w"
proof -
  from alloc_item_lookup[OF assms(5,4), of v] obtain c where
    c: "item_mem (alloc_item k v w) (items t ! map_hash_function fmt k) = Some c"
    and ck: "item_key c = k" and cv: "c\<lparr>item_value := v\<rparr> = cur\<lparr>item_value := v\<rparr>"
    by blast
  from insert_update[OF assms(1,2,3) c ck] cv show ?thesis
    by (simp add: alloc_item_simps)
qed

text \<open>
  The table with a chain at index 15: the key \<^verbatim>\<open>0x102\<close> of its primary slot is
  inserted again with the value 2002. The item of the slot, at 4, takes the value; the
  chained Entry of \<^verbatim>\<open>0x120\<close>, the node at 6 with the item at 5, is as before.
\<close>

theorem insert_same_key_replaces_value_witness:
  "table two_entries = Some \<lparr>items = (replicate 50 0)[15 := 4],
      overflow_list = (replicate 50 0)[15 := 6], table_size = 50, table_count = 1\<rparr> \<and>
   item_mem two_entries 4 = Some \<lparr>item_key = 258, item_value = 1001\<rparr> \<and>
   item_mem two_entries 5 = Some \<lparr>item_key = 288, item_value = 1002\<rparr> \<and>
   node_mem two_entries 6 = Some \<lparr>node_item = 5, node_next = 0\<rparr> \<and>
   (\<exists>w'. lv_insert_buf_map glibc_p 258 2002 two_entries = Some (Inr w') \<and>
      item_mem w' 4 = Some \<lparr>item_key = 258, item_value = 2002\<rparr> \<and>
      item_mem w' 5 = Some \<lparr>item_key = 288, item_value = 1002\<rparr> \<and>
      node_mem w' 6 = Some \<lparr>node_item = 5, node_next = 0\<rparr> \<and>
      trace w' = trace two_entries \<and> table w' = table two_entries \<and>
      node_mem w' = node_mem two_entries \<and>
      item_mem w' =
        ((item_mem two_entries)(7 \<mapsto> \<lparr>item_key = 258, item_value = 2002\<rparr>))
          (4 \<mapsto> \<lparr>item_key = 258, item_value = 2002\<rparr>))"
proof -
  have slot: "items \<lparr>items = (replicate 50 0)[15 := 4],
      overflow_list = (replicate 50 0)[15 := 6], table_size = 50, table_count = 1\<rparr> !
      map_hash_function glibc_p 258 = 4"
    by (simp add: hash_values)
  have len: "map_hash_function glibc_p 258 < length (items \<lparr>items = (replicate 50 0)[15 := 4],
      overflow_list = (replicate 50 0)[15 := 6], table_size = 50, table_count = 1\<rparr>)"
    by (simp add: hash_values)
  from insert_same_key_replaces_value[OF two_entries_table len, of
      "\<lparr>item_key = 258, item_value = 1001\<rparr>" 2002]
  obtain w' where
    run: "lv_insert_buf_map glibc_p 258 2002 two_entries = Some (Inr w')" and
    tr: "trace w' = trace two_entries" and tb: "table w' = table two_entries" and
    nm: "node_mem w' = node_mem two_entries" and
    im: "item_mem w' =
        ((item_mem two_entries)(7 \<mapsto> \<lparr>item_key = 258, item_value = 2002\<rparr>))
          (4 \<mapsto> \<lparr>item_key = 258, item_value = 2002\<rparr>)"
    unfolding slot by (auto simp: two_entries_items)
  have "item_mem w' 4 = Some \<lparr>item_key = 258, item_value = 2002\<rparr>"
    and "item_mem w' 5 = Some \<lparr>item_key = 288, item_value = 1002\<rparr>"
    and "node_mem w' 6 = Some \<lparr>node_item = 5, node_next = 0\<rparr>"
    by (simp_all add: im nm two_entries_items)
  with run tr tb nm im two_entries_table two_entries_items show ?thesis by blast
qed

subsection \<open>Chains\<close>

text \<open>
  C10. In every reachable state, a bucket whose primary slot is empty has an empty
  chain.
\<close>

theorem empty_slot_has_empty_chain:
  assumes "reachable fmt w" and "table w = Some t"
    and "i < HASH_TABLE_SIZE" and "items t ! i = 0"
  shows "overflow_list t ! i = 0"
proof -
  from reachable_inv[OF assms(1)] assms(2) have "table_inv t" by simp
  with assms(3,4) show ?thesis by (simp add: table_inv_def)
qed

text \<open>The table with a chain at index 15; the slot and the chain at index 17 are empty.\<close>

theorem empty_slot_has_empty_chain_witness:
  "reachable glibc_p two_entries \<and>
   table two_entries = Some \<lparr>items = (replicate 50 0)[15 := 4],
      overflow_list = (replicate 50 0)[15 := 6], table_size = 50, table_count = 1\<rparr> \<and>
   17 < HASH_TABLE_SIZE \<and> (replicate 50 (0::nat))[15 := 4] ! 17 = 0 \<and>
   (replicate 50 (0::nat))[15 := 6] ! 17 = 0"
  using empty_slot_has_empty_chain[OF two_entries_reachable two_entries_table, of 17]
    two_entries_reachable two_entries_table
  by (simp add: HASH_TABLE_SIZE_def)

end
